theory Spec2Isabelle
  imports Main "HOL-Library.Sublist"
begin

section \<open>Python string primitives used by the monitor\<close>

text \<open>
  A Python string is modelled as a \<open>string\<close>, read as a list of code points: one \<open>char\<close> is
  one code point below U+0100 (so \<open>CHR 0xC9\<close> is U+00C9, not a byte of an encoding).
  On these strings \<open>lower\<close> and \<open>strip\<close> below are \<open>str.lower()\<close> and \<open>str.strip()\<close>:
  Python lower-cases exactly the letters A to Z and U+00C0 to U+00DE other than U+00D7,
  each to the code point 32 higher, and strips exactly TAB, LF, VT, FF, CR, FS, GS, RS, US,
  space, U+0085 and U+00A0. Strings with a code point from U+0100 on are not values of
  this type; nothing below speaks about them.
\<close>

definition ascii_uppercase :: string where
  "ascii_uppercase = ''ABCDEFGHIJKLMNOPQRSTUVWXYZ''"

definition ascii_lowercase :: string where
  "ascii_lowercase = ''abcdefghijklmnopqrstuvwxyz''"

definition latin1_uppercase :: string where
  "latin1_uppercase =
     [CHR 0xC0, CHR 0xC1, CHR 0xC2, CHR 0xC3, CHR 0xC4, CHR 0xC5, CHR 0xC6, CHR 0xC7,
      CHR 0xC8, CHR 0xC9, CHR 0xCA, CHR 0xCB, CHR 0xCC, CHR 0xCD, CHR 0xCE, CHR 0xCF,
      CHR 0xD0, CHR 0xD1, CHR 0xD2, CHR 0xD3, CHR 0xD4, CHR 0xD5, CHR 0xD6, CHR 0xD8,
      CHR 0xD9, CHR 0xDA, CHR 0xDB, CHR 0xDC, CHR 0xDD, CHR 0xDE]"

definition latin1_lowercase :: string where
  "latin1_lowercase =
     [CHR 0xE0, CHR 0xE1, CHR 0xE2, CHR 0xE3, CHR 0xE4, CHR 0xE5, CHR 0xE6, CHR 0xE7,
      CHR 0xE8, CHR 0xE9, CHR 0xEA, CHR 0xEB, CHR 0xEC, CHR 0xED, CHR 0xEE, CHR 0xEF,
      CHR 0xF0, CHR 0xF1, CHR 0xF2, CHR 0xF3, CHR 0xF4, CHR 0xF5, CHR 0xF6, CHR 0xF8,
      CHR 0xF9, CHR 0xFA, CHR 0xFB, CHR 0xFC, CHR 0xFD, CHR 0xFE]"

definition lower_char :: "char \<Rightarrow> char" where
  "lower_char c =
     (case map_of (zip (ascii_uppercase @ latin1_uppercase) (ascii_lowercase @ latin1_lowercase)) c of
        None \<Rightarrow> c
      | Some d \<Rightarrow> d)"

definition lower :: "string \<Rightarrow> string" where
  "lower s = map lower_char s"

definition whitespace :: string where
  "whitespace = [CHR 0x09, CHR 0x0A, CHR 0x0B, CHR 0x0C, CHR 0x0D,
                 CHR 0x1C, CHR 0x1D, CHR 0x1E, CHR 0x1F, CHR 0x20, CHR 0x85, CHR 0xA0]"

definition is_space :: "char \<Rightarrow> bool" where
  "is_space c = (c \<in> set whitespace)"

definition strip :: "string \<Rightarrow> string" where
  "strip s = rev (dropWhile is_space (rev (dropWhile is_space s)))"

text \<open>\<open>a in b\<close> on two strings: \<open>a\<close> occurs in \<open>b\<close> as a contiguous run.\<close>

fun str_in :: "string \<Rightarrow> string \<Rightarrow> bool" where
  "str_in a [] = (a = [])"
| "str_in a (c # cs) = (prefix a (c # cs) \<or> str_in a cs)"

text \<open>Decimal rendering of integers, as an f-string does it.\<close>

function str_nat :: "nat \<Rightarrow> string" where
  "str_nat n =
     (if n < 10 then [''0123456789'' ! n]
      else str_nat (n div 10) @ [''0123456789'' ! (n mod 10)])"
  by pat_completeness auto
termination
  by (relation "measure id") auto

declare str_nat.simps [simp del]

definition str_int :: "int \<Rightarrow> string" where
  "str_int i = (if i < 0 then CHR ''-'' # str_nat (nat (- i)) else str_nat (nat i))"

section \<open>Configuration\<close>

definition RATE_LIMIT_SECONDS :: nat where
  "RATE_LIMIT_SECONDS = 1"

section \<open>Data model\<close>

text \<open>
  A watchlist entry, with the seven keys \<open>cmd_watch\<close> writes. \<open>last_status\<close> is the
  string the code stores and compares; \<open>last_checked\<close> and \<open>found_date\<close> are \<open>None\<close>
  for JSON null.
\<close>

record book =
  title :: string
  author :: string
  library :: string
  added :: string
  last_status :: string
  last_checked :: "string option"
  found_date :: "string option"

text \<open>
  A catalogue item of a search response. Every key is read with \<open>dict.get\<close> and a
  default, so every key may be absent (\<open>None\<close>).
\<close>

record item =
  item_title :: "string option"
  firstCreatorName :: "string option"
  isOwned :: "bool option"
  ownedCopies :: "int option"
  isAvailable :: "bool option"
  availableCopies :: "int option"

record response =
  totalItems :: "int option"
  items :: "item list option"

text \<open>
  The world a \<open>check\<close> run talks to. \<open>search_library e k lib q\<close> is what the \<open>k\<close>-th
  iteration's call \<open>search_library(lib, q)\<close> returns (\<open>None\<close> on any transport error);
  \<open>now_stamp e k\<close> and \<open>now_date e k\<close> are the two clock readings of iteration \<open>k\<close>,
  formatted as \<open>%Y-%m-%dT%H:%M:%S\<close> and \<open>%Y-%m-%d\<close>.
\<close>

record env =
  search_library :: "nat \<Rightarrow> string \<Rightarrow> string \<Rightarrow> response option"
  now_stamp :: "nat \<Rightarrow> string"
  now_date :: "nat \<Rightarrow> string"

text \<open>The effects of a run on the outside, in order: catalogue requests and pauses.\<close>

datatype event = Request string string | Sleep nat

text \<open>
  The state of the loop of \<open>cmd_check\<close>: the entries (mutated in place), the new finds
  (each a reference to an entry, named here by its position in the watchlist, and the
  matched item), and the effects so far.
\<close>

record check_state =
  books :: "book list"
  new_finds :: "(nat \<times> item option) list"
  trace :: "event list"

text \<open>
  What a command leaves behind: the document it wrote (\<open>None\<close> when \<open>save_watchlist\<close>
  was not called), the arguments of its \<open>print\<close> calls, its effects and its return value.
\<close>

record outcome =
  saved :: "book list option"
  stdout :: "string list"
  events :: "event list"
  exit_code :: int


section \<open>Matching\<close>

definition title_matches :: "string \<Rightarrow> string \<Rightarrow> bool" where
  "title_matches search_title result_title =
     (let a = strip (lower search_title);
          b = strip (lower result_title)
      in str_in a b \<or> str_in b a)"

text \<open>The inner loop of \<open>cmd_check\<close>: scan the items, stop at the first owned title match.\<close>

fun find_match :: "string \<Rightarrow> item list \<Rightarrow> bool \<times> item option" where
  "find_match t [] = (False, None)"
| "find_match t (it # rest) =
     (if title_matches t (case item_title it of None \<Rightarrow> [] | Some s \<Rightarrow> s)
         \<and> (case isOwned it of None \<Rightarrow> False | Some v \<Rightarrow> v)
      then (True, Some it)
      else find_match t rest)"

section \<open>Commands\<close>

subsection \<open>watch\<close>


subsection \<open>unwatch\<close>

definition cmd_unwatch :: "string \<Rightarrow> book list \<Rightarrow> outcome" where
  "cmd_unwatch t wl =
     (let before = length wl;
          bs = filter (\<lambda>b. lower (title b) \<noteq> lower t) wl
      in if length bs < before
         then \<lparr>saved = Some bs, stdout = [''Removed: '' @ t], events = [], exit_code = 0\<rparr>
         else \<lparr>saved = None, stdout = [''Not found in watchlist: '' @ t], events = [],
               exit_code = 1\<rparr>)"

subsection \<open>check\<close>

text \<open>\<open>data.get("items", [])\<close>.\<close>

definition get_items :: "response \<Rightarrow> item list" where
  "get_items d = (case items d of None \<Rightarrow> [] | Some its \<Rightarrow> its)"

text \<open>
  Lines 276 to 296 of the loop body, for an entry whose search returned \<open>d\<close>: the
  updated entry, and the new find to append (if any).
\<close>

definition reconcile :: "env \<Rightarrow> nat \<Rightarrow> book \<Rightarrow> response \<Rightarrow> book \<times> (nat \<times> item option) list" where
  "reconcile e idx b d =
     (let prev_status = last_status b;
          (found, matched_item) =
             find_match (title b) (get_items d);
          b1 = b\<lparr>last_checked := Some (now_stamp e idx)\<rparr>
      in if found \<and> prev_status = ''not_found''
         then (b1\<lparr>last_status := ''found'', found_date := Some (now_date e idx)\<rparr>,
               [(idx, matched_item)])
         else if found then (b1\<lparr>last_status := ''found''\<rparr>, [])
         else (b1\<lparr>last_status := ''not_found''\<rparr>, []))"

text \<open>One iteration of the loop over \<open>enumerate(watchlist["books"])\<close>.\<close>

definition check_step :: "env \<Rightarrow> nat \<Rightarrow> nat \<Rightarrow> check_state \<Rightarrow> check_state" where
  "check_step e tot idx st =
     (let b = books st ! idx;
          query = strip (title b @ '' '' @ author b);
          data = search_library e idx (library b) query;
          st1 = st\<lparr>trace := trace st @ [Request (library b) query]\<rparr>
      in case data of
           None \<Rightarrow> st1
         | Some d \<Rightarrow>
             (let (b', nf) = reconcile e idx b d;
                  st2 = st1\<lparr>books := (books st1)[idx := b'], new_finds := new_finds st1 @ nf\<rparr>
              in if int idx < int tot - 1
                 then st2\<lparr>trace := trace st2 @ [Sleep RATE_LIMIT_SECONDS]\<rparr>
                 else st2))"

text \<open>The whole loop, from the loaded watchlist.\<close>

definition check_run :: "env \<Rightarrow> book list \<Rightarrow> check_state" where
  "check_run e wl =
     fold (check_step e (length wl)) [0..<length wl] \<lparr>books = wl, new_finds = [], trace = []\<rparr>"

text \<open>
  The lines printed for one new find in notify mode. \<open>if item\<close> is false for \<open>None\<close> and
  for a dictionary without keys, which is the item with every field absent.
\<close>

definition report_new_find :: "book list \<Rightarrow> nat \<times> item option \<Rightarrow> string list" where
  "report_new_find bs nf =
     (let b = bs ! fst nf;
          truthy = (case snd nf of
                      None \<Rightarrow> None
                    | Some it \<Rightarrow> if it = \<lparr>item_title = None, firstCreatorName = None, isOwned = None,
                                           ownedCopies = None, isAvailable = None,
                                           availableCopies = None\<rparr>
                                 then None else Some it);
          t = (case truthy of None \<Rightarrow> title b
               | Some it \<Rightarrow> (case item_title it of None \<Rightarrow> title b | Some s \<Rightarrow> s));
          a = (case truthy of None \<Rightarrow> author b
               | Some it \<Rightarrow> (case firstCreatorName it of None \<Rightarrow> author b | Some s \<Rightarrow> s));
          copies = (case truthy of None \<Rightarrow> ''?''
               | Some it \<Rightarrow> str_int (case ownedCopies it of None \<Rightarrow> 0 | Some n \<Rightarrow> n));
          avail = (case truthy of None \<Rightarrow> ''No''
               | Some it \<Rightarrow> if isAvailable it = Some True then ''Yes'' else ''No'')
      in [''  '' @ t @ '' - '' @ a,
          ''    Library: '' @ library b @ '' | Copies: '' @ copies @ '' | Available: '' @ avail,
          ''''])"

text \<open>The reminder about the entries in found status, printed in both modes.\<close>

definition found_digest :: "book list \<Rightarrow> string list" where
  "found_digest bs =
     (let found_books = filter (\<lambda>b. last_status b = ''found'') bs
      in if found_books \<noteq> []
         then [CHR 0x0A # str_nat (length found_books) @ '' book(s) already in catalogue:'']
              @ map (\<lambda>b. ''  - '' @ title b) found_books
              @ [''Consider removing them with '' @ [CHR 0x27] @ ''unwatch'' @ [CHR 0x27] @ ''.'']
         else [])"

definition cmd_check :: "env \<Rightarrow> bool \<Rightarrow> book list \<Rightarrow> outcome" where
  "cmd_check e notify_only wl =
     (if wl = []
      then \<lparr>saved = None,
            stdout = (if \<not> notify_only then [''Watchlist is empty.''] else []),
            events = [], exit_code = 0\<rparr>
      else
        (let tot = length wl;
             st = check_run e wl;
             out =
               (if notify_only
                then (if new_finds st \<noteq> []
                      then [''New on Libby:'' @ [CHR 0x0A]]
                           @ concat (map (report_new_find (books st)) (new_finds st))
                      else [])
                else [''Checked '' @ str_nat tot @ '' book(s).'']
                     @ (if new_finds st \<noteq> []
                        then [str_nat (length (new_finds st)) @ '' new addition(s) found!'']
                        else []))
         in \<lparr>saved = Some (books st), stdout = out @ found_digest (books st),
             events = trace st, exit_code = 0\<rparr>))"

subsection \<open>The persisted watchlist across commands\<close>

text \<open>The document on disk after a command that loaded \<open>wl\<close>.\<close>

definition stored :: "book list \<Rightarrow> outcome \<Rightarrow> book list" where
  "stored wl r = (case saved r of None \<Rightarrow> wl | Some bs \<Rightarrow> bs)"

text \<open>A sequence of \<open>check\<close> runs, each loading what the previous one saved.\<close>

fun check_runs :: "(env \<times> bool) list \<Rightarrow> book list \<Rightarrow> book list" where
  "check_runs [] wl = wl"
| "check_runs (r # rest) wl = check_runs rest (stored wl (cmd_check (fst r) (snd r) wl))"

section \<open>Views of one iteration\<close>

text \<open>
  The spec's genuine match: the item's title matches the watched title and the item is
  owned. This is the test of the inner loop of \<open>cmd_check\<close>.
\<close>

definition genuine_match :: "string \<Rightarrow> item \<Rightarrow> bool" where
  "genuine_match t it \<longleftrightarrow>
     title_matches t (case item_title it of None \<Rightarrow> [] | Some s \<Rightarrow> s) \<and> isOwned it = Some True"

text \<open>What the catalogue returned for entry \<open>b\<close> at position \<open>idx\<close> of the run.\<close>

definition answer :: "env \<Rightarrow> nat \<Rightarrow> book \<Rightarrow> response option" where
  "answer e idx b = search_library e idx (library b) (strip (title b @ '' '' @ author b))"

text \<open>
  The entry, the new finds and the effects of iteration \<open>idx\<close>, as functions of the
  entry it starts from; \<open>check_step_eq\<close> below shows that they are what
  \<open>check_step\<close> does.
\<close>

definition entry_after :: "env \<Rightarrow> nat \<Rightarrow> book \<Rightarrow> book" where
  "entry_after e idx b =
     (case answer e idx b of None \<Rightarrow> b | Some d \<Rightarrow> fst (reconcile e idx b d))"

definition entry_finds :: "env \<Rightarrow> nat \<Rightarrow> book \<Rightarrow> (nat \<times> item option) list" where
  "entry_finds e idx b =
     (case answer e idx b of None \<Rightarrow> [] | Some d \<Rightarrow> snd (reconcile e idx b d))"

definition entry_events :: "env \<Rightarrow> nat \<Rightarrow> nat \<Rightarrow> book \<Rightarrow> event list" where
  "entry_events e tot idx b =
     Request (library b) (strip (title b @ '' '' @ author b))
     # (case answer e idx b of
          None \<Rightarrow> []
        | Some d \<Rightarrow> if int idx < int tot - 1 then [Sleep RATE_LIMIT_SECONDS] else [])"

section \<open>Sample data\<close>

definition dune :: book where
  "dune = \<lparr>title = ''Dune'', author = [], library = ''telaviv'', added = ''2024-01-01'',
           last_status = ''not_found'', last_checked = None, found_date = None\<rparr>"

definition emma :: book where
  "emma = \<lparr>title = ''Emma'', author = ''Jane Austen'', library = ''nypl'', added = ''2024-01-02'',
           last_status = ''not_found'', last_checked = None, found_date = None\<rparr>"

definition dune_found :: book where
  "dune_found = dune\<lparr>last_status := ''found'', last_checked := Some ''2024-01-05T08:00:00'',
                      found_date := Some ''2024-01-05''\<rparr>"

definition blank_entry :: book where
  "blank_entry = dune\<lparr>title := ''  ''\<rparr>"

definition dune_item :: item where
  "dune_item = \<lparr>item_title = Some ''Dune'', firstCreatorName = Some ''Frank Herbert'',
                isOwned = Some True, ownedCopies = Some 3, isAvailable = Some True,
                availableCopies = Some 1\<rparr>"

definition unowned_item :: item where
  "unowned_item = dune_item\<lparr>isOwned := Some False\<rparr>"

text \<open>A catalogue that owns Dune, one that returns nothing, and one that is down.\<close>

definition dune_response :: response where
  "dune_response = \<lparr>totalItems = Some 2, items = Some [unowned_item, dune_item]\<rparr>"

definition env_hit :: "string \<Rightarrow> env" where
  "env_hit day =
     \<lparr>search_library = (\<lambda>k lib q. Some dune_response),
      now_stamp = (\<lambda>k. day @ ''T09:00:00''), now_date = (\<lambda>k. day)\<rparr>"

definition env_miss :: "string \<Rightarrow> env" where
  "env_miss day =
     \<lparr>search_library = (\<lambda>k lib q. Some \<lparr>totalItems = Some 0, items = Some []\<rparr>),
      now_stamp = (\<lambda>k. day @ ''T09:00:00''), now_date = (\<lambda>k. day)\<rparr>"

definition env_down :: "string \<Rightarrow> env" where
  "env_down day =
     \<lparr>search_library = (\<lambda>k lib q. None),
      now_stamp = (\<lambda>k. day @ ''T09:00:00''), now_date = (\<lambda>k. day)\<rparr>"

text \<open>A catalogue whose first request of the run fails and whose later ones succeed.\<close>

definition env_first_down :: "string \<Rightarrow> env" where
  "env_first_down day =
     \<lparr>search_library =
        (\<lambda>k lib q. if k = 0 then None else Some dune_response),
      now_stamp = (\<lambda>k. day @ ''T09:00:00''), now_date = (\<lambda>k. day)\<rparr>"





section \<open>Evaluation rules\<close>

lemmas string_eval = title_matches_def strip_def lower_def lower_char_def is_space_def
  whitespace_def ascii_uppercase_def ascii_lowercase_def latin1_uppercase_def latin1_lowercase_def

lemmas sample_data = dune_def emma_def dune_found_def blank_entry_def dune_item_def
  unowned_item_def dune_response_def env_hit_def env_miss_def env_down_def env_first_down_def

lemmas run_eval = check_run_def check_step_def reconcile_def get_items_def cmd_check_def
  found_digest_def report_new_find_def stored_def answer_def genuine_match_def
  RATE_LIMIT_SECONDS_def

section \<open>Strings\<close>

lemma str_in_iff: "str_in a b \<longleftrightarrow> (\<exists>p q. b = p @ a @ q)"
proof (induction b)
  case Nil
  then show ?case by auto
next
  case (Cons c cs)
  show ?case
  proof
    assume "str_in a (c # cs)"
    then consider "prefix a (c # cs)" | "str_in a cs" by auto
    then show "\<exists>p q. c # cs = p @ a @ q"
    proof cases
      case 1
      then obtain q where "c # cs = a @ q" by (auto simp: prefix_def)
      then have "c # cs = [] @ a @ q" by simp
      then show ?thesis by blast
    next
      case 2
      with Cons obtain p q where "cs = p @ a @ q" by auto
      then have "c # cs = (c # p) @ a @ q" by simp
      then show ?thesis by blast
    qed
  next
    assume "\<exists>p q. c # cs = p @ a @ q"
    then obtain p q where pq: "c # cs = p @ a @ q" by auto
    show "str_in a (c # cs)"
    proof (cases p)
      case Nil
      with pq have "prefix a (c # cs)" by (simp add: prefix_def)
      then show ?thesis by simp
    next
      case (Cons x p')
      with pq have "cs = p' @ a @ q" by simp
      with Cons.IH have "str_in a cs" by blast
      then show ?thesis by simp
    qed
  qed
qed

lemma str_in_Nil: "str_in [] b"
  by (cases b) auto

lemma lower_char_space: "is_space c \<Longrightarrow> lower_char c = c"
  unfolding is_space_def whitespace_def list.set insert_iff empty_iff
  by (elim disjE)
     (simp_all add: lower_char_def ascii_uppercase_def ascii_lowercase_def
        latin1_uppercase_def latin1_lowercase_def)

lemma lower_blank: "\<forall>c\<in>set s. is_space c \<Longrightarrow> lower s = s"
  by (induction s) (simp_all add: lower_def lower_char_space)

lemma strip_blank:
  assumes "\<forall>c\<in>set s. is_space c"
  shows "strip s = []"
proof -
  from assms have *: "dropWhile is_space s = []"
    by (simp add: dropWhile_eq_Nil_conv)
  show ?thesis unfolding strip_def * by simp
qed

lemma title_matches_blank: "\<forall>c\<in>set s. is_space c \<Longrightarrow> title_matches s r"
  by (simp add: title_matches_def Let_def lower_blank strip_blank str_in_Nil)

lemma matches_dune: "title_matches ''Dune'' ''Dune Messiah''"
  by (simp add: string_eval)

lemma matches_hobbit: "title_matches ''The Hobbit'' ''hobbit''"
  by (simp add: string_eval)

lemma matches_foo_bar: "\<not> title_matches ''Foo'' ''Bar''"
  by (simp add: string_eval)

lemma dune_item_genuine: "genuine_match ''Dune'' dune_item"
  by (simp add: genuine_match_def dune_item_def string_eval)

lemma dune_response_items: "get_items dune_response = [unowned_item, dune_item]"
  by (simp add: get_items_def dune_response_def)

lemma dune_response_match: "\<exists>it\<in>set (get_items dune_response). genuine_match ''Dune'' it"
  using dune_item_genuine by (simp add: dune_response_items)

lemma emma_no_match: "\<not> (\<exists>it\<in>set (get_items dune_response). genuine_match ''Emma'' it)"
  by (simp add: dune_response_items genuine_match_def dune_item_def unowned_item_def string_eval)

section \<open>The loop of check\<close>

lemma check_step_eq:
  "check_step e tot idx st =
     \<lparr>books = (books st)[idx := entry_after e idx (books st ! idx)],
      new_finds = new_finds st @ entry_finds e idx (books st ! idx),
      trace = trace st @ entry_events e tot idx (books st ! idx)\<rparr>"
  by (cases "answer e idx (books st ! idx)")
     (simp_all add: check_step_def Let_def answer_def entry_after_def entry_finds_def
        entry_events_def split: prod.splits)

lemma check_fold:
  "n \<le> length wl \<Longrightarrow>
   fold (check_step e tot) [0..<n] \<lparr>books = wl, new_finds = [], trace = []\<rparr> =
     \<lparr>books = map (\<lambda>i. if i < n then entry_after e i (wl ! i) else wl ! i) [0..<length wl],
      new_finds = concat (map (\<lambda>i. entry_finds e i (wl ! i)) [0..<n]),
      trace = concat (map (\<lambda>i. entry_events e tot i (wl ! i)) [0..<n])\<rparr>"
proof (induction n)
  case 0
  then show ?case by (simp add: map_nth)
next
  case (Suc n)
  then have n: "n < length wl" by simp
  have upd: "(map (\<lambda>i. if i < n then entry_after e i (wl ! i) else wl ! i) [0..<length wl])
               [n := entry_after e n (wl ! n)]
             = map (\<lambda>i. if i < Suc n then entry_after e i (wl ! i) else wl ! i) [0..<length wl]"
    using n by (intro nth_equalityI) (auto simp: nth_list_update less_Suc_eq)
  from Suc n show ?case
    by (simp add: check_step_eq upd)
qed

lemma check_run_eq:
  "check_run e wl =
     \<lparr>books = map (\<lambda>i. entry_after e i (wl ! i)) [0..<length wl],
      new_finds = concat (map (\<lambda>i. entry_finds e i (wl ! i)) [0..<length wl]),
      trace = concat (map (\<lambda>i. entry_events e (length wl) i (wl ! i)) [0..<length wl])\<rparr>"
  by (simp add: check_run_def check_fold)

lemma check_run_length: "length (books (check_run e wl)) = length wl"
  by (simp add: check_run_eq)

lemma check_run_nth: "i < length wl \<Longrightarrow> books (check_run e wl) ! i = entry_after e i (wl ! i)"
  by (simp add: check_run_eq)

lemma stored_check:
  "stored wl (cmd_check e notify_only wl) = books (check_run e wl)"
  by (cases "wl = []") (simp_all add: stored_def cmd_check_def Let_def check_run_def)

lemma find_match_find:
  "find_match t its =
     (case List.find (genuine_match t) its of None \<Rightarrow> (False, None) | Some it \<Rightarrow> (True, Some it))"
  by (induction its) (auto simp: genuine_match_def split: option.splits)

lemma find_match_found: "fst (find_match t its) \<longleftrightarrow> (\<exists>it\<in>set its. genuine_match t it)"
proof (cases "List.find (genuine_match t) its")
  case None
  then have "\<not> (\<exists>it\<in>set its. genuine_match t it)"
    by (simp add: find_None_iff)
  with None show ?thesis
    by (simp add: find_match_find)
next
  case (Some it)
  then have "\<exists>it\<in>set its. genuine_match t it"
    by (auto simp: find_Some_iff)
  with Some show ?thesis
    by (simp add: find_match_find)
qed

text \<open>The updated entry and the new find of a successful search, field by field.\<close>

lemma reconcile_eq:
  "reconcile e idx b d =
     (if \<exists>it\<in>set (get_items d). genuine_match (title b) it
      then (if last_status b = ''not_found''
            then (b\<lparr>last_checked := Some (now_stamp e idx), last_status := ''found'',
                    found_date := Some (now_date e idx)\<rparr>,
                  [(idx, List.find (genuine_match (title b)) (get_items d))])
            else (b\<lparr>last_checked := Some (now_stamp e idx), last_status := ''found''\<rparr>, []))
      else (b\<lparr>last_checked := Some (now_stamp e idx), last_status := ''not_found''\<rparr>, []))"
proof (cases "List.find (genuine_match (title b)) (get_items d)")
  case None
  then have "\<not> (\<exists>it\<in>set (get_items d). genuine_match (title b) it)"
    by (simp add: find_None_iff)
  with None show ?thesis
    by (simp add: reconcile_def Let_def find_match_find)
next
  case (Some it)
  then have "\<exists>it\<in>set (get_items d). genuine_match (title b) it"
    by (auto simp: find_Some_iff)
  with Some show ?thesis
    by (simp add: reconcile_def Let_def find_match_find)
qed

section \<open>Lower-casing and trimming\<close>

text \<open>
  \<open>lower\<close> moves each upper-case letter to the code point 32 higher and leaves every other
  character alone.
\<close>

lemma lower_char_upper:
  "c \<in> set (ascii_uppercase @ latin1_uppercase) \<Longrightarrow> (of_char (lower_char c) :: nat) = of_char c + 32"
  unfolding ascii_uppercase_def latin1_uppercase_def append.simps list.set insert_iff empty_iff
  by (elim disjE)
     (simp_all add: lower_char_def ascii_uppercase_def ascii_lowercase_def
        latin1_uppercase_def latin1_lowercase_def)

lemma lower_char_other:
  "c \<notin> set (ascii_uppercase @ latin1_uppercase) \<Longrightarrow> lower_char c = c"
proof -
  assume "c \<notin> set (ascii_uppercase @ latin1_uppercase)"
  moreover have "length (ascii_uppercase @ latin1_uppercase) = length (ascii_lowercase @ latin1_lowercase)"
    by (simp add: ascii_uppercase_def ascii_lowercase_def latin1_uppercase_def latin1_lowercase_def)
  ultimately have "map_of (zip (ascii_uppercase @ latin1_uppercase) (ascii_lowercase @ latin1_lowercase)) c = None"
    by (simp add: map_of_zip_is_None)
  then show ?thesis
    by (simp add: lower_char_def)
qed

text \<open>
  \<open>strip\<close> removes exactly a run of whitespace at each end: the string is the stripped
  one between two runs of whitespace, and a non-empty stripped string neither starts nor
  ends with whitespace.
\<close>

lemma last_dropWhile_nonempty: "dropWhile P xs \<noteq> [] \<Longrightarrow> last (dropWhile P xs) = last xs"
proof -
  assume ne: "dropWhile P xs \<noteq> []"
  have "last xs = last (takeWhile P xs @ dropWhile P xs)"
    by simp
  also from ne have "\<dots> = last (dropWhile P xs)"
    by (simp only: last_append if_False)
  finally show ?thesis by simp
qed

lemma strip_decomp:
  "\<exists>l t. x = l @ strip x @ t \<and> (\<forall>c\<in>set l. is_space c) \<and> (\<forall>c\<in>set t. is_space c)"
proof -
  let ?t = "dropWhile is_space x"
  let ?u = "dropWhile is_space (rev ?t)"
  have "rev (takeWhile is_space (rev ?t) @ ?u) = rev (rev ?t)"
    by (simp only: takeWhile_dropWhile_id)
  then have "rev ?u @ rev (takeWhile is_space (rev ?t)) = ?t"
    by (simp only: rev_append rev_rev_ident)
  then have t: "?t = strip x @ rev (takeWhile is_space (rev ?t))"
    by (simp only: strip_def)
  have "x = takeWhile is_space x @ ?t"
    by simp
  with t have "x = takeWhile is_space x @ strip x @ rev (takeWhile is_space (rev ?t))"
    by simp
  moreover have "\<forall>c\<in>set (takeWhile is_space x). is_space c"
    by (auto dest: set_takeWhileD)
  moreover have "\<forall>c\<in>set (rev (takeWhile is_space (rev ?t))). is_space c"
    by (auto dest: set_takeWhileD)
  ultimately show ?thesis
    by blast
qed

lemma strip_ends:
  assumes ne: "strip x \<noteq> []"
  shows "\<not> is_space (hd (strip x)) \<and> \<not> is_space (last (strip x))"
proof
  let ?t = "dropWhile is_space x"
  let ?u = "dropWhile is_space (rev ?t)"
  from ne have u: "?u \<noteq> []"
    by (simp add: strip_def)
  then have tne: "?t \<noteq> []"
    by (metis dropWhile.simps(1) rev.simps(1))
  from u have "hd (strip x) = last ?u"
    by (simp add: strip_def hd_rev)
  also from u have "\<dots> = last (rev ?t)"
    by (rule last_dropWhile_nonempty)
  also from tne have "\<dots> = hd ?t"
    by (simp add: last_rev)
  finally show "\<not> is_space (hd (strip x))"
    using tne by (simp add: hd_dropWhile)
  from u have "last (strip x) = hd ?u"
    by (simp add: strip_def last_rev)
  with u show "\<not> is_space (last (strip x))"
    by (simp add: hd_dropWhile)
qed

text \<open>Matching through padding, letter case and accented letters.\<close>

lemma matches_padded: "title_matches ''  DUNE '' ([CHR 0x09] @ ''Dune Messiah'' @ [CHR 0x0A])"
  by (simp add: string_eval)

lemma matches_latin1:
  "title_matches ([CHR 0xA0] @ ''CAF'' @ [CHR 0xC9]) (''Caf'' @ [CHR 0xE9] @ '' Society'' @ [CHR 0x85])"
  by (simp add: string_eval)

lemma normalise_hobbit: "strip (lower ''  The Hobbit  '') = ''the hobbit''"
  by (simp add: string_eval)

lemma no_match_inner_space: "\<not> title_matches ''Du ne'' ''Dune''"
  by (simp add: string_eval)

section \<open>The title-match predicate\<close>

text \<open>
  Claim C8. \<open>title_matches\<close> lower-cases and whitespace-trims both arguments and is true
  exactly when one normalized string occurs in the other as a contiguous run. The
  normalization is pinned down for every string \<open>x\<close>: lower-casing keeps the length and
  moves exactly the upper-case letters, each by 32; trimming removes exactly a run of
  whitespace at each end. The predicate holds of "Dune" and "Dune Messiah", of
  "The Hobbit" and "hobbit", of padded and differently cased titles, and not of "Foo" and
  "Bar". Scope: strings of code points below U+0100.
\<close>

theorem title_matches_containment:
  "(title_matches s r \<longleftrightarrow>
      (\<exists>p q. strip (lower r) = p @ strip (lower s) @ q) \<or>
      (\<exists>p q. strip (lower s) = p @ strip (lower r) @ q))
   \<and> length (lower x) = length x
   \<and> (\<forall>i<length x. (of_char (lower x ! i) :: nat) =
          (if x ! i \<in> set (ascii_uppercase @ latin1_uppercase) then of_char (x ! i) + 32
           else of_char (x ! i)))
   \<and> (\<exists>l t. x = l @ strip x @ t \<and> (\<forall>c\<in>set l. is_space c) \<and> (\<forall>c\<in>set t. is_space c))
   \<and> (strip x \<noteq> [] \<longrightarrow> \<not> is_space (hd (strip x)) \<and> \<not> is_space (last (strip x)))
   \<and> title_matches ''Dune'' ''Dune Messiah''
   \<and> title_matches ''The Hobbit'' ''hobbit''
   \<and> \<not> title_matches ''Foo'' ''Bar''
   \<and> title_matches ''  DUNE '' ([CHR 0x09] @ ''Dune Messiah'' @ [CHR 0x0A])
   \<and> title_matches ([CHR 0xA0] @ ''CAF'' @ [CHR 0xC9]) (''Caf'' @ [CHR 0xE9] @ '' Society'' @ [CHR 0x85])
   \<and> \<not> title_matches ''Du ne'' ''Dune''
   \<and> strip (lower ''  The Hobbit  '') = ''the hobbit''"
proof -
  have iff: "title_matches s r \<longleftrightarrow>
      (\<exists>p q. strip (lower r) = p @ strip (lower s) @ q) \<or>
      (\<exists>p q. strip (lower s) = p @ strip (lower r) @ q)"
    by (simp add: title_matches_def Let_def str_in_iff)
  have len: "length (lower x) = length x"
    by (simp add: lower_def)
  have low: "\<forall>i<length x. (of_char (lower x ! i) :: nat) =
          (if x ! i \<in> set (ascii_uppercase @ latin1_uppercase) then of_char (x ! i) + 32
           else of_char (x ! i))"
    by (simp add: lower_def lower_char_upper lower_char_other del: set_append)
  have ends: "strip x \<noteq> [] \<longrightarrow> \<not> is_space (hd (strip x)) \<and> \<not> is_space (last (strip x))"
    by (simp add: strip_ends)
  from iff len low strip_decomp [of x] ends matches_dune matches_hobbit matches_foo_bar
    matches_padded matches_latin1 no_match_inner_space normalise_hobbit
  show ?thesis
    by (intro conjI)
qed

theorem title_matches_containment_witness:
  "title_matches ''  DUNE '' ''dune messiah'' \<and>
   strip (lower ''  DUNE '') = ''dune'' \<and>
   \<not> is_space (hd (strip ''  DUNE '')) \<and> \<not> is_space (last (strip ''  DUNE '')) \<and>
   (of_char (lower ''  DUNE '' ! 2) :: nat) = of_char (CHR ''D'') + 32"
proof -
  note inst = title_matches_containment [of "''  DUNE ''" "''dune messiah''" "''  DUNE ''"]
  have n: "strip (lower ''  DUNE '') = ''dune''" "strip (lower ''dune messiah'') = ''dune messiah''"
    by (simp_all add: string_eval)
  have "''dune messiah'' = [] @ ''dune'' @ '' messiah''"
    by simp
  then have "\<exists>p q. strip (lower ''dune messiah'') = p @ strip (lower ''  DUNE '') @ q"
    unfolding n by blast
  with inst [THEN conjunct1] have m: "title_matches ''  DUNE '' ''dune messiah''"
    by blast
  have ne: "strip ''  DUNE '' \<noteq> []"
    by (simp add: string_eval)
  from inst have e: "strip ''  DUNE '' \<noteq> [] \<longrightarrow>
      \<not> is_space (hd (strip ''  DUNE '')) \<and> \<not> is_space (last (strip ''  DUNE ''))"
    by (elim conjE)
  from inst have "\<forall>i<length ''  DUNE ''. (of_char (lower ''  DUNE '' ! i) :: nat) =
          (if ''  DUNE '' ! i \<in> set (ascii_uppercase @ latin1_uppercase)
           then of_char (''  DUNE '' ! i) + 32 else of_char (''  DUNE '' ! i))"
    by (elim conjE)
  then have "(of_char (lower ''  DUNE '' ! 2) :: nat) =
          (if ''  DUNE '' ! 2 \<in> set (ascii_uppercase @ latin1_uppercase)
           then of_char (''  DUNE '' ! 2) + 32 else of_char (''  DUNE '' ! 2))"
    by simp
  then have u: "(of_char (lower ''  DUNE '' ! 2) :: nat) = of_char (CHR ''D'') + 32"
    by (simp add: ascii_uppercase_def)
  from m n(1) e [THEN mp, OF ne] u show ?thesis
    by simp
qed

text \<open>
  Claim C9. A watched title that is empty or all whitespace matches every result title;
  so during \<open>check\<close> an entry with such a title is marked found as soon as its search
  response holds one owned item.
\<close>

theorem blank_title_matches_everything:
  "((\<forall>c\<in>set s. is_space c) \<longrightarrow> title_matches s r) \<and>
   (i < length wl \<and> (\<forall>c\<in>set (title (wl ! i)). is_space c) \<and>
    answer e i (wl ! i) = Some d \<and> it \<in> set (get_items d) \<and> isOwned it = Some True
      \<longrightarrow> last_status (books (check_run e wl) ! i) = ''found'')"
proof (intro conjI impI)
  assume "\<forall>c\<in>set s. is_space c"
  then show "title_matches s r"
    by (rule title_matches_blank)
next
  assume a: "i < length wl \<and> (\<forall>c\<in>set (title (wl ! i)). is_space c) \<and>
    answer e i (wl ! i) = Some d \<and> it \<in> set (get_items d) \<and> isOwned it = Some True"
  then have "genuine_match (title (wl ! i)) it"
    by (simp add: genuine_match_def title_matches_blank)
  with a have "\<exists>x\<in>set (get_items d). genuine_match (title (wl ! i)) x"
    by blast
  then have "last_status (fst (reconcile e i (wl ! i) d)) = ''found''"
    by (simp add: reconcile_eq)
  with a show "last_status (books (check_run e wl) ! i) = ''found''"
    by (simp add: check_run_nth entry_after_def)
qed

theorem blank_title_matches_everything_witness:
  "title_matches ''  '' ''Dune'' \<and>
   last_status (books (check_run (env_hit ''2024-02-02'') [blank_entry]) ! 0) = ''found''"
proof -
  have 1: "\<forall>c\<in>set ''  ''. is_space c"
    by (simp add: is_space_def whitespace_def)
  have 2: "0 < length [blank_entry] \<and> (\<forall>c\<in>set (title ([blank_entry] ! 0)). is_space c) \<and>
    answer (env_hit ''2024-02-02'') 0 ([blank_entry] ! 0) = Some dune_response \<and>
    dune_item \<in> set (get_items dune_response) \<and>
    isOwned dune_item = Some True"
    by (simp add: is_space_def whitespace_def answer_def get_items_def sample_data)
  note inst = blank_title_matches_everything
    [of "''  ''" "''Dune''" 0 "[blank_entry]" "env_hit ''2024-02-02''" dune_response dune_item]
  from inst [THEN conjunct1, THEN mp, OF 1] inst [THEN conjunct2, THEN mp, OF 2]
  show ?thesis by (rule conjI)
qed

section \<open>watch and unwatch\<close>

lemma filter_keeps_all:
  "length (filter P xs) < length xs \<longleftrightarrow> (\<exists>x\<in>set xs. \<not> P x)"
proof (induction xs)
  case Nil
  show ?case by simp
next
  case (Cons x xs)
  have "length (filter P xs) \<le> length xs"
    by (rule length_filter_le)
  with Cons show ?case
    by (cases "P x") (auto simp: less_Suc_eq_le Suc_le_eq)
qed



text \<open>
  Claim C7. When no entry's title equals the argument case-insensitively, \<open>unwatch\<close>
  returns 1, does not write the document, and the watchlist is unchanged; when at least
  one entry matches, it returns 0.
\<close>

theorem unwatch_exit_code:
  "(\<not> (\<exists>b\<in>set wl. lower (title b) = lower t) \<longrightarrow>
      exit_code (cmd_unwatch t wl) = 1 \<and> saved (cmd_unwatch t wl) = None \<and>
      stored wl (cmd_unwatch t wl) = wl) \<and>
   ((\<exists>b\<in>set wl. lower (title b) = lower t) \<longrightarrow> exit_code (cmd_unwatch t wl) = 0)"
  by (simp add: cmd_unwatch_def Let_def stored_def filter_keeps_all)

theorem unwatch_exit_code_witness:
  "exit_code (cmd_unwatch ''nonexistent'' [dune, emma]) = 1 \<and>
   saved (cmd_unwatch ''nonexistent'' [dune, emma]) = None \<and>
   stored [dune, emma] (cmd_unwatch ''nonexistent'' [dune, emma]) = [dune, emma] \<and>
   exit_code (cmd_unwatch ''DUNE'' [dune, emma]) = 0"
proof -
  have 1: "\<not> (\<exists>b\<in>set [dune, emma]. lower (title b) = lower ''nonexistent'')"
    by (simp add: sample_data string_eval)
  have 2: "\<exists>b\<in>set [dune, emma]. lower (title b) = lower ''DUNE''"
    by (simp add: sample_data string_eval)
  from unwatch_exit_code [of "[dune, emma]" "''nonexistent''", THEN conjunct1, THEN mp, OF 1]
       unwatch_exit_code [of "[dune, emma]" "''DUNE''", THEN conjunct2, THEN mp, OF 2]
  show ?thesis by simp
qed

text \<open>
  Claim C10. \<open>unwatch\<close> removes every entry whose lower-cased title equals the lower-cased
  argument, also from a watchlist with duplicate titles: the watchlist afterwards is the
  old one with exactly those entries filtered out, the others in their original order.
\<close>

theorem unwatch_removes_every_match:
  "stored wl (cmd_unwatch t wl) = filter (\<lambda>b. lower (title b) \<noteq> lower t) wl \<and>
   (\<forall>b\<in>set (stored wl (cmd_unwatch t wl)). lower (title b) \<noteq> lower t)"
proof -
  have eq: "stored wl (cmd_unwatch t wl) = filter (\<lambda>b. lower (title b) \<noteq> lower t) wl"
  proof (cases "\<exists>b\<in>set wl. lower (title b) = lower t")
    case True
    then show ?thesis
      by (simp add: cmd_unwatch_def Let_def stored_def filter_keeps_all)
  next
    case False
    then have "filter (\<lambda>b. lower (title b) \<noteq> lower t) wl = wl"
      by (simp add: filter_id_conv)
    with False show ?thesis
      by (simp add: cmd_unwatch_def Let_def stored_def)
  qed
  then show ?thesis by simp
qed

theorem unwatch_removes_every_match_witness:
  "stored [dune, emma, dune\<lparr>title := ''DUNE''\<rparr>] (cmd_unwatch ''dune'' [dune, emma, dune\<lparr>title := ''DUNE''\<rparr>])
     = [emma]"
  using unwatch_removes_every_match [of "[dune, emma, dune\<lparr>title := ''DUNE''\<rparr>]" "''dune''"]
  by (simp add: sample_data string_eval)







section \<open>Reconciliation\<close>

lemma entry_finds_eq:
  "entry_finds e i b =
     (case answer e i b of
        None \<Rightarrow> []
      | Some d \<Rightarrow>
          if last_status b = ''not_found'' \<and> (\<exists>it\<in>set (get_items d). genuine_match (title b) it)
          then [(i, List.find (genuine_match (title b)) (get_items d))] else [])"
  by (simp add: entry_finds_def reconcile_eq split: option.splits)

lemma entry_after_eq:
  "entry_after e i b =
     (case answer e i b of
        None \<Rightarrow> b
      | Some d \<Rightarrow>
          b\<lparr>last_checked := Some (now_stamp e i),
            last_status := (if \<exists>it\<in>set (get_items d). genuine_match (title b) it
                            then ''found'' else ''not_found''),
            found_date := (if (\<exists>it\<in>set (get_items d). genuine_match (title b) it)
                               \<and> last_status b = ''not_found''
                           then Some (now_date e i) else found_date b)\<rparr>)"
  by (simp add: entry_after_def reconcile_eq split: option.splits)

lemma entry_finds_mem:
  "(i, m) \<in> set (entry_finds e i b) \<longleftrightarrow>
     (\<exists>d. answer e i b = Some d \<and> last_status b = ''not_found'' \<and>
          (\<exists>it\<in>set (get_items d). genuine_match (title b) it) \<and>
          m = List.find (genuine_match (title b)) (get_items d))"
  by (cases "answer e i b") (auto simp: entry_finds_eq)

lemma entry_finds_fst: "p \<in> set (entry_finds e i b) \<Longrightarrow> fst p = i"
  by (cases "answer e i b") (auto simp: entry_finds_eq split: if_splits)

lemma mem_new_finds:
  "p \<in> set (new_finds (check_run e wl)) \<longleftrightarrow>
     fst p < length wl \<and> p \<in> set (entry_finds e (fst p) (wl ! fst p))"
proof
  assume "p \<in> set (new_finds (check_run e wl))"
  then obtain i where i: "i < length wl" "p \<in> set (entry_finds e i (wl ! i))"
    by (auto simp: check_run_eq)
  then have "fst p = i" by (simp add: entry_finds_fst)
  with i show "fst p < length wl \<and> p \<in> set (entry_finds e (fst p) (wl ! fst p))"
    by simp
next
  assume "fst p < length wl \<and> p \<in> set (entry_finds e (fst p) (wl ! fst p))"
  then show "p \<in> set (new_finds (check_run e wl))"
    by (auto simp: check_run_eq)
qed

lemma concat_singletons:
  "concat (map (\<lambda>i. if P i then [i] else []) xs) = filter P xs"
  by (induction xs) simp_all

lemma new_finds_distinct: "distinct (map fst (new_finds (check_run e wl)))"
proof -
  have "map fst (entry_finds e i b) = (if entry_finds e i b \<noteq> [] then [i] else [])" for i b
    by (cases "answer e i b") (simp_all add: entry_finds_eq)
  then have "map fst (new_finds (check_run e wl))
      = concat (map (\<lambda>i. if entry_finds e i (wl ! i) \<noteq> [] then [i] else []) [0..<length wl])"
    by (simp add: check_run_eq map_concat comp_def)
  then show ?thesis
    by (simp add: concat_singletons)
qed

text \<open>
  Claim C2. In one \<open>check\<close> run, entry \<open>i\<close> is appended to the new finds if and only if
  its previous \<open>last_status\<close> was \<open>not_found\<close> and its search returned a response with at
  least one item that title-matches and is owned (\<open>genuine_match\<close> does not look at
  availability). The item paired with the entry is the first such item of the response.
  An entry whose status was \<open>found\<close> gives no new find, and no entry is appended twice.
\<close>

theorem new_find_iff:
  "i < length wl \<longrightarrow>
     ((i \<in> fst ` set (new_finds (check_run e wl))) \<longleftrightarrow>
        (last_status (wl ! i) = ''not_found'' \<and>
         (\<exists>d. answer e i (wl ! i) = Some d \<and>
              (\<exists>it\<in>set (get_items d). genuine_match (title (wl ! i)) it))))
   \<and> (\<forall>m. (i, m) \<in> set (new_finds (check_run e wl)) \<longrightarrow>
        (\<exists>d k. answer e i (wl ! i) = Some d \<and> k < length (get_items d) \<and>
               m = Some (get_items d ! k) \<and>
               genuine_match (title (wl ! i)) (get_items d ! k) \<and>
               (\<forall>j<k. \<not> genuine_match (title (wl ! i)) (get_items d ! j))))
   \<and> (last_status (wl ! i) = ''found'' \<longrightarrow> i \<notin> fst ` set (new_finds (check_run e wl)))
   \<and> distinct (map fst (new_finds (check_run e wl)))"
proof
  assume i: "i < length wl"
  let ?b = "wl ! i"
  let ?cond = "last_status ?b = ''not_found'' \<and>
         (\<exists>d. answer e i ?b = Some d \<and> (\<exists>it\<in>set (get_items d). genuine_match (title ?b) it))"
  have mem: "(i, m) \<in> set (new_finds (check_run e wl)) \<longleftrightarrow> (i, m) \<in> set (entry_finds e i ?b)" for m
    using i by (simp add: mem_new_finds)
  have iff: "(i \<in> fst ` set (new_finds (check_run e wl))) \<longleftrightarrow> ?cond"
  proof
    assume "i \<in> fst ` set (new_finds (check_run e wl))"
    then obtain m where "(i, m) \<in> set (new_finds (check_run e wl))"
      by auto
    then have "(i, m) \<in> set (entry_finds e i ?b)"
      by (simp add: mem)
    then show ?cond
      by (auto simp: entry_finds_mem)
  next
    assume ?cond
    then obtain d where d: "answer e i ?b = Some d" "last_status ?b = ''not_found''"
        "\<exists>it\<in>set (get_items d). genuine_match (title ?b) it"
      by blast
    then have "(i, List.find (genuine_match (title ?b)) (get_items d)) \<in> set (entry_finds e i ?b)"
      by (auto simp: entry_finds_mem)
    then have "(i, List.find (genuine_match (title ?b)) (get_items d)) \<in> set (new_finds (check_run e wl))"
      by (simp add: mem)
    then show "i \<in> fst ` set (new_finds (check_run e wl))"
      by force
  qed
  have first: "\<exists>d k. answer e i ?b = Some d \<and> k < length (get_items d) \<and>
               m = Some (get_items d ! k) \<and> genuine_match (title ?b) (get_items d ! k) \<and>
               (\<forall>j<k. \<not> genuine_match (title ?b) (get_items d ! j))"
    if "(i, m) \<in> set (new_finds (check_run e wl))" for m
  proof -
    from that have "(i, m) \<in> set (entry_finds e i ?b)"
      by (simp add: mem)
    then obtain d where d: "answer e i ?b = Some d"
        "\<exists>it\<in>set (get_items d). genuine_match (title ?b) it"
        "m = List.find (genuine_match (title ?b)) (get_items d)"
      by (auto simp: entry_finds_mem)
    from d(2) obtain x where "List.find (genuine_match (title ?b)) (get_items d) = Some x"
      by (cases "List.find (genuine_match (title ?b)) (get_items d)") (auto simp: find_None_iff)
    then obtain k where "k < length (get_items d)" "genuine_match (title ?b) (get_items d ! k)"
        "x = get_items d ! k" "\<forall>j<k. \<not> genuine_match (title ?b) (get_items d ! j)"
      by (auto simp: find_Some_iff)
    with d \<open>List.find (genuine_match (title ?b)) (get_items d) = Some x\<close> show ?thesis
      by auto
  qed
  from iff have again: "last_status ?b = ''found'' \<longrightarrow> i \<notin> fst ` set (new_finds (check_run e wl))"
    by auto
  from iff first again new_finds_distinct
  show "((i \<in> fst ` set (new_finds (check_run e wl))) \<longleftrightarrow> ?cond)
   \<and> (\<forall>m. (i, m) \<in> set (new_finds (check_run e wl)) \<longrightarrow>
        (\<exists>d k. answer e i (wl ! i) = Some d \<and> k < length (get_items d) \<and>
               m = Some (get_items d ! k) \<and>
               genuine_match (title (wl ! i)) (get_items d ! k) \<and>
               (\<forall>j<k. \<not> genuine_match (title (wl ! i)) (get_items d ! j))))
   \<and> (last_status (wl ! i) = ''found'' \<longrightarrow> i \<notin> fst ` set (new_finds (check_run e wl)))
   \<and> distinct (map fst (new_finds (check_run e wl)))"
    by blast
qed


theorem new_find_iff_witness:
  "0 \<in> fst ` set (new_finds (check_run (env_hit ''2024-02-02'') [dune, emma])) \<and>
   0 \<notin> fst ` set (new_finds (check_run (env_hit ''2024-02-02'') [dune_found]))"
proof -
  have cond: "last_status ([dune, emma] ! 0) = ''not_found'' \<and>
      (\<exists>d. answer (env_hit ''2024-02-02'') 0 ([dune, emma] ! 0) = Some d \<and>
           (\<exists>it\<in>set (get_items d). genuine_match (title ([dune, emma] ! 0)) it))"
    using dune_response_match by (simp add: answer_def env_hit_def dune_def)
  have len: "0 < length [dune, emma]" "0 < length [dune_found]"
    by simp_all
  have fnd: "last_status ([dune_found] ! 0) = ''found''"
    by (simp add: sample_data)
  note a = new_find_iff [of 0 "[dune, emma]" "env_hit ''2024-02-02''", THEN mp, OF len(1)]
  note b = new_find_iff [of 0 "[dune_found]" "env_hit ''2024-02-02''", THEN mp, OF len(2)]
  from a [THEN conjunct1] cond
  have 1: "0 \<in> fst ` set (new_finds (check_run (env_hit ''2024-02-02'') [dune, emma]))"
    by (rule iffD2)
  from b [THEN conjunct2, THEN conjunct2, THEN conjunct1] fnd
  have 2: "0 \<notin> fst ` set (new_finds (check_run (env_hit ''2024-02-02'') [dune_found]))"
    by (rule mp)
  from 1 2 show ?thesis by (rule conjI)
qed

lemma stored_check_nth:
  "i < length wl \<Longrightarrow> stored wl (cmd_check e notify_only wl) ! i = entry_after e i (wl ! i)"
  by (simp add: stored_check check_run_nth)

lemma cmd_check_exit: "exit_code (cmd_check e notify_only wl) = 0"
  by (simp add: cmd_check_def Let_def)

text \<open>
  Claim C5. When the search of entry \<open>i\<close> fails, the entry is left as it was (so its
  \<open>last_status\<close>, \<open>last_checked\<close> and \<open>found_date\<close> are unmodified). Every entry \<open>j\<close> whose
  search succeeded is updated from its own response alone, whatever happened to the
  others. The watchlist keeps its length and \<open>cmd_check\<close> returns 0.
\<close>

theorem failed_search_leaves_entry:
  "(i < length wl \<and> answer e i (wl ! i) = None \<longrightarrow>
      stored wl (cmd_check e notify_only wl) ! i = wl ! i) \<and>
   (j < length wl \<and> answer e j (wl ! j) = Some d \<longrightarrow>
      stored wl (cmd_check e notify_only wl) ! j =
        (wl ! j)\<lparr>last_checked := Some (now_stamp e j),
                 last_status := (if \<exists>it\<in>set (get_items d). genuine_match (title (wl ! j)) it
                                 then ''found'' else ''not_found''),
                 found_date := (if (\<exists>it\<in>set (get_items d). genuine_match (title (wl ! j)) it)
                                    \<and> last_status (wl ! j) = ''not_found''
                                then Some (now_date e j) else found_date (wl ! j))\<rparr>) \<and>
   length (stored wl (cmd_check e notify_only wl)) = length wl \<and>
   exit_code (cmd_check e notify_only wl) = 0"
proof (intro conjI impI)
  assume "i < length wl \<and> answer e i (wl ! i) = None"
  then show "stored wl (cmd_check e notify_only wl) ! i = wl ! i"
    by (simp add: stored_check_nth entry_after_eq)
next
  assume "j < length wl \<and> answer e j (wl ! j) = Some d"
  then show "stored wl (cmd_check e notify_only wl) ! j =
        (wl ! j)\<lparr>last_checked := Some (now_stamp e j),
                 last_status := (if \<exists>it\<in>set (get_items d). genuine_match (title (wl ! j)) it
                                 then ''found'' else ''not_found''),
                 found_date := (if (\<exists>it\<in>set (get_items d). genuine_match (title (wl ! j)) it)
                                    \<and> last_status (wl ! j) = ''not_found''
                                then Some (now_date e j) else found_date (wl ! j))\<rparr>"
    by (simp add: stored_check_nth entry_after_eq)
next
  show "length (stored wl (cmd_check e notify_only wl)) = length wl"
    by (simp add: stored_check check_run_length)
next
  show "exit_code (cmd_check e notify_only wl) = 0"
    by (rule cmd_check_exit)
qed

theorem failed_search_leaves_entry_witness:
  "stored [dune_found, emma, dune] (cmd_check (env_first_down ''2024-02-02'') True [dune_found, emma, dune]) ! 0
     = dune_found \<and>
   stored [dune_found, emma, dune] (cmd_check (env_first_down ''2024-02-02'') True [dune_found, emma, dune]) ! 2
     = dune\<lparr>last_checked := Some ''2024-02-02T09:00:00'', last_status := ''found'',
            found_date := Some ''2024-02-02''\<rparr> \<and>
   exit_code (cmd_check (env_first_down ''2024-02-02'') True [dune_found, emma, dune]) = 0"
proof -
  let ?wl = "[dune_found, emma, dune]"
  let ?e = "env_first_down ''2024-02-02''"
  let ?d = dune_response
  have 1: "0 < length ?wl \<and> answer ?e 0 (?wl ! 0) = None"
    by (simp add: answer_def env_first_down_def)
  have 2: "2 < length ?wl \<and> answer ?e 2 (?wl ! 2) = Some ?d"
    by (simp add: answer_def env_first_down_def)
  have g: "\<exists>it\<in>set (get_items ?d). genuine_match (title (?wl ! 2)) it"
    using dune_response_match by (simp add: dune_def)
  have s: "last_status dune = ''not_found''" "?wl ! 2 = dune" "?wl ! 0 = dune_found"
    "now_stamp ?e 2 = ''2024-02-02T09:00:00''" "now_date ?e 2 = ''2024-02-02''"
    by (simp_all add: dune_def env_first_down_def)
  note inst = failed_search_leaves_entry [of 0 ?wl ?e True 2 ?d]
  from inst [THEN conjunct1, THEN mp, OF 1] have a: "stored ?wl (cmd_check ?e True ?wl) ! 0 = dune_found"
    by (simp only: s)
  from inst [THEN conjunct2, THEN conjunct1, THEN mp, OF 2] g
  have b: "stored ?wl (cmd_check ?e True ?wl) ! 2
     = dune\<lparr>last_checked := Some ''2024-02-02T09:00:00'', last_status := ''found'',
            found_date := Some ''2024-02-02''\<rparr>"
    by (simp only: s if_True simp_thms)
  from inst have c: "exit_code (cmd_check ?e True ?wl) = 0"
    by (rule conjunct2 [THEN conjunct2, THEN conjunct2])
  from a b c show ?thesis by simp
qed

section \<open>The found date across runs\<close>

lemma entry_after_found_date:
  "found_date b \<noteq> None \<Longrightarrow> found_date (entry_after e i b) \<noteq> None"
  by (cases "answer e i b") (simp_all add: entry_after_eq)

lemma check_keeps_found_date:
  "i < length wl \<Longrightarrow> found_date (wl ! i) \<noteq> None \<Longrightarrow>
   found_date (stored wl (cmd_check e notify_only wl) ! i) \<noteq> None"
  by (simp add: stored_check_nth entry_after_found_date)

lemma check_runs_keep_found_date:
  "i < length wl \<Longrightarrow> found_date (wl ! i) \<noteq> None \<Longrightarrow>
   length (check_runs rs wl) = length wl \<and> found_date (check_runs rs wl ! i) \<noteq> None"
proof (induction rs arbitrary: wl)
  case Nil
  then show ?case by simp
next
  case (Cons r rs)
  let ?wl' = "stored wl (cmd_check (fst r) (snd r) wl)"
  have len: "length ?wl' = length wl"
    by (simp add: stored_check check_run_length)
  with Cons.prems have "i < length ?wl'" "found_date (?wl' ! i) \<noteq> None"
    by (simp_all add: check_keeps_found_date)
  then have "length (check_runs rs ?wl') = length ?wl' \<and> found_date (check_runs rs ?wl' ! i) \<noteq> None"
    by (rule Cons.IH)
  with len show ?case by simp
qed

text \<open>
  Claim C1, as amended. For an entry whose \<open>found_date\<close> is set, a \<open>check\<close> run leaves
  \<open>found_date\<close> unchanged unless the entry's previous \<open>last_status\<close> was \<open>not_found\<close> and
  this round's search produced a genuine match; in that round it is overwritten with the
  round's date. No sequence of \<open>check\<close> runs clears it.
\<close>

theorem found_date_overwritten_only_on_new_find:
  "i < length wl \<and> found_date (wl ! i) \<noteq> None \<longrightarrow>
     found_date (stored wl (cmd_check e notify_only wl) ! i) =
       (if last_status (wl ! i) = ''not_found'' \<and>
           (\<exists>d. answer e i (wl ! i) = Some d \<and>
                (\<exists>it\<in>set (get_items d). genuine_match (title (wl ! i)) it))
        then Some (now_date e i) else found_date (wl ! i))
     \<and> length (check_runs rs wl) = length wl
     \<and> found_date (check_runs rs wl ! i) \<noteq> None"
proof
  assume a: "i < length wl \<and> found_date (wl ! i) \<noteq> None"
  have "found_date (entry_after e i (wl ! i)) =
       (if last_status (wl ! i) = ''not_found'' \<and>
           (\<exists>d. answer e i (wl ! i) = Some d \<and>
                (\<exists>it\<in>set (get_items d). genuine_match (title (wl ! i)) it))
        then Some (now_date e i) else found_date (wl ! i))"
    by (cases "answer e i (wl ! i)") (auto simp: entry_after_eq)
  with a check_runs_keep_found_date [of i wl rs]
  show "found_date (stored wl (cmd_check e notify_only wl) ! i) =
       (if last_status (wl ! i) = ''not_found'' \<and>
           (\<exists>d. answer e i (wl ! i) = Some d \<and>
                (\<exists>it\<in>set (get_items d). genuine_match (title (wl ! i)) it))
        then Some (now_date e i) else found_date (wl ! i))
     \<and> length (check_runs rs wl) = length wl
     \<and> found_date (check_runs rs wl ! i) \<noteq> None"
    by (simp add: stored_check_nth)
qed

text \<open>
  The claim as first stated (no sequence of runs changes a set \<open>found_date\<close>) fails: an
  entry found on 2024-01-05 that regresses to \<open>not_found\<close> and is found again on
  2024-03-03 ends with \<open>found_date\<close> 2024-03-03.
\<close>

lemma regress_then_refind:
  "check_runs [(env_miss ''2024-02-02'', False), (env_hit ''2024-03-03'', False)] [dune_found]
     = [dune_found\<lparr>last_checked := Some ''2024-03-03T09:00:00'', found_date := Some ''2024-03-03''\<rparr>]"
  by (simp add: run_eval sample_data string_eval upt_rec str_nat.simps)

theorem found_date_changed_counterexample:
  "found_date ([dune_found] ! 0) = Some ''2024-01-05'' \<and>
   found_date (check_runs [(env_miss ''2024-02-02'', False), (env_hit ''2024-03-03'', False)]
                 [dune_found] ! 0) = Some ''2024-03-03''"
proof -
  have "found_date ([dune_found] ! 0) = Some ''2024-01-05''"
    by (simp add: dune_found_def)
  moreover have "found_date (check_runs [(env_miss ''2024-02-02'', False),
      (env_hit ''2024-03-03'', False)] [dune_found] ! 0) = Some ''2024-03-03''"
    unfolding regress_then_refind by simp
  ultimately show ?thesis by (rule conjI)
qed

theorem found_date_overwritten_only_on_new_find_witness:
  "found_date (stored [dune_found] (cmd_check (env_miss ''2024-02-02'') True [dune_found]) ! 0)
     = Some ''2024-01-05'' \<and>
   found_date (check_runs [(env_miss ''2024-02-02'', False), (env_hit ''2024-03-03'', False)]
                 [dune_found] ! 0) \<noteq> None"
proof -
  have h: "0 < length [dune_found] \<and> found_date ([dune_found] ! 0) \<noteq> None"
    by (simp add: dune_found_def)
  have s: "last_status ([dune_found] ! 0) \<noteq> ''not_found''"
    "found_date ([dune_found] ! 0) = Some ''2024-01-05''"
    by (simp_all add: dune_found_def)
  note inst = found_date_overwritten_only_on_new_find
    [of 0 "[dune_found]" "env_miss ''2024-02-02''" True
        "[(env_miss ''2024-02-02'', False), (env_hit ''2024-03-03'', False)]", THEN mp, OF h]
  from inst [THEN conjunct1] s
  have 1: "found_date (stored [dune_found] (cmd_check (env_miss ''2024-02-02'') True [dune_found]) ! 0)
     = Some ''2024-01-05''"
    by simp
  from inst [THEN conjunct2, THEN conjunct2]
  have 2: "found_date (check_runs [(env_miss ''2024-02-02'', False), (env_hit ''2024-03-03'', False)]
                 [dune_found] ! 0) \<noteq> None" .
  from 1 2 show ?thesis by (rule conjI)
qed

section \<open>Output and pacing of a run\<close>

text \<open>
  Claim C3 says that notify mode prints nothing when a run has no new find. On a
  watchlist whose only entry is already found and matches again, the run has no new find,
  and notify mode still prints the reminder about found entries.
\<close>

theorem notify_digest_without_new_finds:
  "new_finds (check_run (env_hit ''2024-02-02'') [dune_found]) = [] \<and>
   stdout (cmd_check (env_hit ''2024-02-02'') True [dune_found]) =
     [CHR 0x0A # ''1 book(s) already in catalogue:'',
      ''  - Dune'',
      ''Consider removing them with '' @ [CHR 0x27] @ ''unwatch'' @ [CHR 0x27] @ ''.'']"
  by (simp add: run_eval sample_data string_eval upt_rec str_nat.simps)

text \<open>
  Claim C4 says a run over N entries pauses N - 1 times, once between each pair of
  consecutive queries, also after a failed search. On two entries of which the first
  search fails, the run sends the two requests back to back, with no pause.
\<close>

theorem no_pause_after_failed_search:
  "events (cmd_check (env_first_down ''2024-02-02'') False [dune, emma]) =
     [Request ''telaviv'' ''Dune'', Request ''nypl'' ''Emma Jane Austen'']"
  by (simp add: run_eval sample_data string_eval upt_rec str_nat.simps)

text \<open>When every search succeeds the pauses are the N - 1 ones between the requests.\<close>

lemma pauses_when_all_succeed:
  "events (cmd_check (env_hit ''2024-02-02'') False [dune, emma, dune]) =
     [Request ''telaviv'' ''Dune'', Sleep 1, Request ''nypl'' ''Emma Jane Austen'', Sleep 1,
      Request ''telaviv'' ''Dune'']"
  by (simp add: run_eval sample_data string_eval upt_rec str_nat.simps)

section \<open>What a run prints and when it pauses\<close>

lemma new_find_is_found:
  assumes "p \<in> set (new_finds (check_run e wl))"
  shows "fst p < length wl \<and> last_status (books (check_run e wl) ! fst p) = ''found''"
proof -
  from assms have i: "fst p < length wl" and m: "p \<in> set (entry_finds e (fst p) (wl ! fst p))"
    by (simp_all add: mem_new_finds)
  from m have "(fst p, snd p) \<in> set (entry_finds e (fst p) (wl ! fst p))"
    by simp
  then obtain d where "answer e (fst p) (wl ! fst p) = Some d"
      "\<exists>it\<in>set (get_items d). genuine_match (title (wl ! fst p)) it"
    unfolding entry_finds_mem by blast
  then have "last_status (entry_after e (fst p) (wl ! fst p)) = ''found''"
    by (simp add: entry_after_eq)
  with i show ?thesis
    by (simp add: check_run_nth)
qed

lemma found_digest_empty: "found_digest bs = [] \<longleftrightarrow> (\<forall>b\<in>set bs. last_status b \<noteq> ''found'')"
  by (auto simp: found_digest_def Let_def filter_empty_conv)

text \<open>
  What notify mode does print: it is silent exactly when, after the run, no entry is in
  found status (a new find always leaves its entry in found status).
\<close>

theorem notify_silent_iff:
  "stdout (cmd_check e True wl) = [] \<longleftrightarrow>
     (\<forall>b\<in>set (stored wl (cmd_check e True wl)). last_status b \<noteq> ''found'')"
proof (cases "wl = []")
  case True
  then show ?thesis
    by (simp add: cmd_check_def stored_def)
next
  case False
  let ?st = "check_run e wl"
  have out: "stdout (cmd_check e True wl) =
      (if new_finds ?st \<noteq> []
       then [''New on Libby:'' @ [CHR 0x0A]] @ concat (map (report_new_find (books ?st)) (new_finds ?st))
       else []) @ found_digest (books ?st)"
    using False by (simp add: cmd_check_def Let_def)
  have quiet: "new_finds ?st = []" if "\<forall>b\<in>set (books ?st). last_status b \<noteq> ''found''"
  proof (rule ccontr)
    assume "new_finds ?st \<noteq> []"
    then obtain p where "p \<in> set (new_finds ?st)"
      by (cases "new_finds ?st") auto
    then have "fst p < length (books ?st)" "last_status (books ?st ! fst p) = ''found''"
      using new_find_is_found [of p e wl] by (simp_all add: check_run_length)
    with that show False
      by (metis nth_mem)
  qed
  show ?thesis
  proof
    assume "stdout (cmd_check e True wl) = []"
    then have "found_digest (books ?st) = []"
      by (simp add: out)
    then show "\<forall>b\<in>set (stored wl (cmd_check e True wl)). last_status b \<noteq> ''found''"
      by (simp add: found_digest_empty stored_check)
  next
    assume "\<forall>b\<in>set (stored wl (cmd_check e True wl)). last_status b \<noteq> ''found''"
    then have nf: "\<forall>b\<in>set (books ?st). last_status b \<noteq> ''found''"
      by (simp add: stored_check)
    then have "new_finds ?st = []" by (rule quiet)
    moreover from nf have "found_digest (books ?st) = []"
      by (simp add: found_digest_empty)
    ultimately show "stdout (cmd_check e True wl) = []"
      by (simp add: out)
  qed
qed

lemma cmd_check_events:
  "events (cmd_check e notify_only wl) =
     concat (map (\<lambda>i. entry_events e (length wl) i (wl ! i)) [0..<length wl])"
  by (cases "wl = []") (simp_all add: cmd_check_def Let_def check_run_eq)

lemma count_concat:
  "length (filter P (concat (map f xs))) = sum_list (map (\<lambda>x. length (filter P (f x))) xs)"
  by (induction xs) simp_all

lemma sum_indicator:
  "sum_list (map (\<lambda>x. if Q x then 1 else 0) xs) = length (filter Q xs)"
  by (induction xs) simp_all

lemma filter_below_last:
  "filter (\<lambda>i. Q i \<and> int i < int n - 1) [0..<n] = filter Q [0..<n - 1]"
proof (cases n)
  case 0
  then show ?thesis by simp
next
  case (Suc m)
  have "filter (\<lambda>i. Q i \<and> i < m) [0..<m] = filter Q [0..<m]"
    by (rule filter_cong) auto
  with Suc show ?thesis
    by simp
qed

text \<open>
  What the run does pause on: every entry contributes its request, followed by one pause
  exactly when its search succeeded and it is not the last entry. So the pauses of a run
  are as many as the entries before the last whose search succeeded.
\<close>

theorem pauses_follow_successful_searches:
  "events (cmd_check e notify_only wl) =
     concat (map (\<lambda>i. Request (library (wl ! i)) (strip (title (wl ! i) @ '' '' @ author (wl ! i)))
                       # (if answer e i (wl ! i) \<noteq> None \<and> i + 1 < length wl
                          then [Sleep RATE_LIMIT_SECONDS] else []))
                 [0..<length wl])
   \<and> length (filter (\<lambda>ev. ev = Sleep RATE_LIMIT_SECONDS) (events (cmd_check e notify_only wl)))
       = length (filter (\<lambda>i. answer e i (wl ! i) \<noteq> None) [0..<length wl - 1])"
proof -
  have ev: "entry_events e (length wl) i (wl ! i) =
      Request (library (wl ! i)) (strip (title (wl ! i) @ '' '' @ author (wl ! i)))
        # (if answer e i (wl ! i) \<noteq> None \<and> i + 1 < length wl
           then [Sleep RATE_LIMIT_SECONDS] else [])" for i
    by (cases "answer e i (wl ! i)") (auto simp: entry_events_def)
  have cnt: "length (filter (\<lambda>ev. ev = Sleep RATE_LIMIT_SECONDS) (entry_events e (length wl) i (wl ! i)))
      = (if answer e i (wl ! i) \<noteq> None \<and> int i < int (length wl) - 1 then 1 else 0)" for i
    by (cases "answer e i (wl ! i)") (auto simp: entry_events_def)
  have "length (filter (\<lambda>ev. ev = Sleep RATE_LIMIT_SECONDS) (events (cmd_check e notify_only wl)))
      = length (filter (\<lambda>i. answer e i (wl ! i) \<noteq> None \<and> int i < int (length wl) - 1) [0..<length wl])"
    by (simp only: cmd_check_events count_concat cnt sum_indicator)
  also have "\<dots> = length (filter (\<lambda>i. answer e i (wl ! i) \<noteq> None) [0..<length wl - 1])"
    by (simp only: filter_below_last)
  finally show ?thesis
    by (simp add: cmd_check_events ev)
qed


theorem notify_silent_iff_witness:
  "stdout (cmd_check (env_miss ''2024-02-02'') True [dune, emma]) = []"
proof -
  have "stored [dune, emma] (cmd_check (env_miss ''2024-02-02'') True [dune, emma]) =
      [dune\<lparr>last_checked := Some ''2024-02-02T09:00:00''\<rparr>,
       emma\<lparr>last_checked := Some ''2024-02-02T09:00:00''\<rparr>]"
    by (simp add: run_eval sample_data string_eval upt_rec)
  then have "\<forall>b\<in>set (stored [dune, emma] (cmd_check (env_miss ''2024-02-02'') True [dune, emma])).
      last_status b \<noteq> ''found''"
    by (simp add: dune_def emma_def)
  with notify_silent_iff [of "env_miss ''2024-02-02''" "[dune, emma]"] show ?thesis
    by (rule iffD2)
qed

theorem pauses_follow_successful_searches_witness:
  "length (filter (\<lambda>ev. ev = Sleep RATE_LIMIT_SECONDS)
     (events (cmd_check (env_first_down ''2024-02-02'') False [dune, emma, dune]))) = 1"
  using pauses_follow_successful_searches
    [of "env_first_down ''2024-02-02''" False "[dune, emma, dune]", THEN conjunct2]
  by (simp add: answer_def env_first_down_def upt_rec)

end
